theory Spec2Isabelle
  imports Main
begin

section \<open>Strings and the JavaScript runtime\<close>

text \<open>
  Strings are lists of 8-bit characters. On ASCII text a JavaScript code unit, its UTF-8
  byte and a \<^typ>\<open>char\<close> coincide; text outside ASCII is not covered by the model.
  Every \<open>Date.now()\<close> is a clock reading handed to the operation by the caller, one
  argument for each place where the code reads the clock; nothing is assumed about how two
  readings compare.
\<close>

section \<open>The cache store (src/services/cache.ts, class CacheService)\<close>

record 'v CacheEntry =
  data :: 'v
  timestamp :: int
  ttl :: int

text \<open>
  The \<open>Map\<close> of the class is an association list in insertion order, as the
  iteration order of a JavaScript \<open>Map\<close> is.
\<close>

record 'v CacheService =
  cache :: "(string \<times> 'v CacheEntry) list"
  defaultTtl :: int
  maxSize :: int

definition newCacheService :: "int option \<Rightarrow> int option \<Rightarrow> 'v CacheService" where
  \<comment> \<open>constructor: \<open>options.ttl ?? 3600000\<close>, \<open>options.maxSize ?? 100\<close>\<close>
  "newCacheService ttl_opt maxSize_opt =
     \<lparr>cache = [],
      defaultTtl = (case ttl_opt of None \<Rightarrow> 3600000 | Some t \<Rightarrow> t),
      maxSize = (case maxSize_opt of None \<Rightarrow> 100 | Some m \<Rightarrow> m)\<rparr>"

text \<open>\<open>Map.prototype.set\<close>: a present key keeps its place, a new key goes last.\<close>

fun map_set :: "string \<Rightarrow> 'e \<Rightarrow> (string \<times> 'e) list \<Rightarrow> (string \<times> 'e) list" where
  "map_set k e [] = [(k, e)]"
| "map_set k e ((k', e') # xs) = (if k' = k then (k, e) # xs else (k', e') # map_set k e xs)"

definition map_delete :: "string \<Rightarrow> (string \<times> 'e) list \<Rightarrow> (string \<times> 'e) list" where
  "map_delete k xs = filter (\<lambda>p. fst p \<noteq> k) xs"

definition size_of :: "'v CacheService \<Rightarrow> int" where
  "size_of s = int (length (cache s))"

definition expired :: "int \<Rightarrow> 'v CacheEntry \<Rightarrow> bool" where
  \<comment> \<open>the test \<open>now - entry.timestamp > entry.ttl\<close> of get, has and cleanup\<close>
  "expired now entry = (now - timestamp entry > ttl entry)"

definition cleanup :: "'v CacheService \<Rightarrow> int \<Rightarrow> 'v CacheService" where
  "cleanup s now = s\<lparr>cache := filter (\<lambda>p. \<not> expired now (snd p)) (cache s)\<rparr>"

definition evict_oldest :: "'v CacheService \<Rightarrow> 'v CacheService" where
  \<comment> \<open>\<open>const oldestKey = this.cache.keys().next().value; if (oldestKey) this.cache.delete(oldestKey)\<close>:
      the guard is false for \<open>undefined\<close> (empty map) and for the empty string\<close>
  "evict_oldest s =
     (case cache s of
        [] \<Rightarrow> s
      | (oldestKey, _) # _ \<Rightarrow>
          if oldestKey \<noteq> [] then s\<lparr>cache := map_delete oldestKey (cache s)\<rparr> else s)"

text \<open>
  \<open>set\<close> reads the clock for the timestamp of the new entry (\<open>now\<close>) and, when the store
  is full, \<open>cleanup\<close> reads it again (\<open>sweepNow\<close>).
\<close>

definition set_cache ::
  "'v CacheService \<Rightarrow> int \<Rightarrow> int \<Rightarrow> string \<Rightarrow> 'v \<Rightarrow> int option \<Rightarrow> 'v CacheService" where
  "set_cache s now sweepNow key d ttl_opt =
     (let entry = \<lparr>data = d, timestamp = now,
                   ttl = (case ttl_opt of None \<Rightarrow> defaultTtl s | Some t \<Rightarrow> t)\<rparr>;
          s1 = (if size_of s \<ge> maxSize s then
                  (let s' = cleanup s sweepNow
                   in if size_of s' \<ge> maxSize s' then evict_oldest s' else s')
                else s)
      in s1\<lparr>cache := map_set key entry (cache s1)\<rparr>)"

definition get_cache :: "'v CacheService \<Rightarrow> int \<Rightarrow> string \<Rightarrow> 'v option \<times> 'v CacheService" where
  "get_cache s now key =
     (case map_of (cache s) key of
        None \<Rightarrow> (None, s)
      | Some entry \<Rightarrow>
          if expired now entry then (None, s\<lparr>cache := map_delete key (cache s)\<rparr>)
          else (Some (data entry), s))"

definition has_cache :: "'v CacheService \<Rightarrow> int \<Rightarrow> string \<Rightarrow> bool \<times> 'v CacheService" where
  "has_cache s now key =
     (case map_of (cache s) key of
        None \<Rightarrow> (False, s)
      | Some entry \<Rightarrow>
          if expired now entry then (False, s\<lparr>cache := map_delete key (cache s)\<rparr>)
          else (True, s))"

definition delete_cache :: "'v CacheService \<Rightarrow> string \<Rightarrow> bool \<times> 'v CacheService" where
  "delete_cache s key =
     (map_of (cache s) key \<noteq> None, s\<lparr>cache := map_delete key (cache s)\<rparr>)"

definition clear :: "'v CacheService \<Rightarrow> 'v CacheService" where
  "clear s = s\<lparr>cache := []\<rparr>"

text \<open>A sequence of \<open>set\<close> calls, each with its two clock readings, key, value and
  optional ttl.\<close>

definition set_all ::
  "'v CacheService \<Rightarrow> (int \<times> int \<times> string \<times> 'v \<times> int option) list \<Rightarrow> 'v CacheService" where
  "set_all s calls =
     foldl (\<lambda>s' (now, sweepNow, key, d, ttl_opt). set_cache s' now sweepNow key d ttl_opt) s calls"


subsection \<open>Cache keys (static generators of CacheService)\<close>

definition join :: "string \<Rightarrow> string list \<Rightarrow> string" where
  \<comment> \<open>\<open>Array.prototype.join\<close>\<close>
  "join sep xs = (case xs of [] \<Rightarrow> [] | y # ys \<Rightarrow> y @ concat (map (\<lambda>x. sep @ x) ys))"

definition base64_alphabet :: string where
  "base64_alphabet = ''ABCDEFGHIJKLMNOPQRSTUVWXYZabcdefghijklmnopqrstuvwxyz0123456789+/''"

definition base64_digit :: "nat \<Rightarrow> char" where
  "base64_digit n = base64_alphabet ! (n mod 64)"

text \<open>\<open>Buffer.from(params, 'utf8').toString('base64')\<close>: three bytes give four digits,
  a last group of one or two bytes is padded with \<open>=\<close>.\<close>

fun base64 :: "string \<Rightarrow> string" where
  "base64 [] = []"
| "base64 [a] =
     (let n = of_char a * 65536
      in [base64_digit (n div 262144), base64_digit (n div 4096), CHR ''='', CHR ''=''])"
| "base64 [a, b] =
     (let n = of_char a * 65536 + of_char b * 256
      in [base64_digit (n div 262144), base64_digit (n div 4096), base64_digit (n div 64),
          CHR ''=''])"
| "base64 (a # b # c # rest) =
     (let n = of_char a * 65536 + of_char b * 256 + of_char c
      in [base64_digit (n div 262144), base64_digit (n div 4096), base64_digit (n div 64),
          base64_digit n] @ base64 rest)"

definition isAlphaNumeric :: "char \<Rightarrow> bool" where
  \<comment> \<open>the complement of the class \<open>[^a-zA-Z0-9]\<close>\<close>
  "isAlphaNumeric c =
     (c \<in> set ''abcdefghijklmnopqrstuvwxyzABCDEFGHIJKLMNOPQRSTUVWXYZ0123456789'')"

text \<open>
  \<open>limit\<close>, \<open>quality\<close> and \<open>popularity\<close> enter the key only through
  \<open>toString()\<close>; the model takes each as that text, \<open>None\<close> for \<open>undefined\<close>.
\<close>

definition generateSearchKey ::
  "string \<Rightarrow> string option \<Rightarrow> string option \<Rightarrow> string option \<Rightarrow> string" where
  "generateSearchKey query limit quality popularity =
     (let params = join '':''
            [query,
             (case limit of None \<Rightarrow> ''20'' | Some l \<Rightarrow> l),
             (case quality of None \<Rightarrow> ''any'' | Some q \<Rightarrow> q),
             (case popularity of None \<Rightarrow> ''any'' | Some p \<Rightarrow> p)];
          hash = take 16 (filter isAlphaNumeric (base64 params))
      in ''search:'' @ hash)"

section \<open>Errors (types/index.ts) and the retry policy (src/utils/error-handler.ts)\<close>

text \<open>
  What a \<open>catch\<close> can receive: a \<open>PackageReadmeMcpError\<close> (message, code, statusCode)
  or one of its subclasses, which only fix these fields; another \<open>Error\<close> (name,
  message); or a value that is no \<open>Error\<close>, kept as its \<open>String(error)\<close>.
\<close>

datatype thrown =
    PackageReadmeMcpError string string "int option"
  | Error string string
  | NonError string

definition PackageNotFoundError :: "string \<Rightarrow> thrown" where
  "PackageNotFoundError packageName =
     PackageReadmeMcpError (''Package '' @ [CHR 0x27] @ packageName @ [CHR 0x27] @ '' not found'')
       ''PACKAGE_NOT_FOUND'' (Some 404)"

definition VersionNotFoundError :: "string \<Rightarrow> string \<Rightarrow> thrown" where
  "VersionNotFoundError packageName version =
     PackageReadmeMcpError
       (''Version '' @ [CHR 0x27] @ version @ [CHR 0x27] @ '' of package '' @ [CHR 0x27]
          @ packageName @ [CHR 0x27] @ '' not found'')
       ''VERSION_NOT_FOUND'' (Some 404)"

definition RateLimitError :: "string \<Rightarrow> thrown" where
  "RateLimitError service =
     PackageReadmeMcpError (''Rate limit exceeded for '' @ service) ''RATE_LIMIT_EXCEEDED'' (Some 429)"

definition NetworkError :: "string \<Rightarrow> thrown" where
  "NetworkError message = PackageReadmeMcpError (''Network error: '' @ message) ''NETWORK_ERROR'' None"

fun includes_str :: "string \<Rightarrow> string \<Rightarrow> bool" where
  \<comment> \<open>\<open>String.prototype.includes\<close>\<close>
  "includes_str [] pat = (pat = [])"
| "includes_str (c # cs) pat = (take (length pat) (c # cs) = pat \<or> includes_str cs pat)"

fun handleApiError :: "thrown \<Rightarrow> string \<Rightarrow> thrown" where
  \<comment> \<open>the function never returns: the result is what it throws\<close>
  "handleApiError (PackageReadmeMcpError m c sc) context = PackageReadmeMcpError m c sc"
| "handleApiError (Error name message) context =
     (if name = ''TypeError'' \<and> includes_str message ''fetch''
        then NetworkError (''Failed to fetch data from '' @ context)
      else if includes_str message ''timeout'' \<or> includes_str message ''ETIMEDOUT''
        then NetworkError (''Request timeout for '' @ context)
      else if includes_str message ''429'' \<or> includes_str message ''rate limit''
        then RateLimitError context
      else NetworkError message)"
| "handleApiError (NonError str) context =
     PackageReadmeMcpError (''Unknown error in '' @ context @ '': '' @ str) ''UNKNOWN_ERROR'' None"

fun isClientError :: "thrown \<Rightarrow> bool" where
  \<comment> \<open>the guard of withRetry: \<open>error instanceof PackageReadmeMcpError\<close> with a
      statusCode that is truthy, at least 400, below 500 and not 429\<close>
  "isClientError (PackageReadmeMcpError m c (Some sc)) = (sc \<noteq> 0 \<and> sc \<ge> 400 \<and> sc < 500 \<and> sc \<noteq> 429)"
| "isClientError _ = False"

fun isTyped :: "thrown \<Rightarrow> bool" where
  \<comment> \<open>\<open>error instanceof PackageReadmeMcpError\<close>: one of the typed errors of types/index.ts\<close>
  "isTyped (PackageReadmeMcpError m c sc) = True"
| "isTyped _ = False"

text \<open>
  A run of \<open>withRetry\<close>: what it returns or throws, how often it invoked the operation
  and the delays it slept, in order. \<open>operation k\<close> is the outcome of the \<open>k\<close>-th
  invocation (counted from 1). \<open>maxRetries\<close> is a count, so a natural number.
\<close>

record 'a retry_run =
  outcome :: "thrown + 'a"
  invocations :: nat
  sleeps :: "int list"

function withRetry_loop ::
  "(nat \<Rightarrow> thrown + 'a) \<Rightarrow> nat \<Rightarrow> int \<Rightarrow> string \<Rightarrow> nat \<Rightarrow> thrown \<Rightarrow> nat \<Rightarrow> int list
     \<Rightarrow> 'a retry_run" where
  "withRetry_loop operation maxRetries baseDelay context attempt lastError calls slept =
     (if attempt \<le> maxRetries then
        (case operation attempt of
           Inr v \<Rightarrow> \<lparr>outcome = Inr v, invocations = Suc calls, sleeps = slept\<rparr>
         | Inl error \<Rightarrow>
             if isClientError error
               then \<lparr>outcome = Inl error, invocations = Suc calls, sleeps = slept\<rparr>
             else if attempt = maxRetries
               then \<lparr>outcome = Inl (handleApiError error context), invocations = Suc calls,
                     sleeps = slept\<rparr>
             else withRetry_loop operation maxRetries baseDelay context (Suc attempt) error
                    (Suc calls) (slept @ [baseDelay * 2 ^ (attempt - 1)]))
      else \<lparr>outcome = Inl (handleApiError lastError context), invocations = calls,
            sleeps = slept\<rparr>)"
  by pat_completeness auto
termination
  by (relation "measure (\<lambda>(operation, maxRetries, baseDelay, context, attempt, lastError, calls, slept).
        Suc maxRetries - attempt)") auto

declare withRetry_loop.simps [simp del]

definition withRetry :: "(nat \<Rightarrow> thrown + 'a) \<Rightarrow> nat \<Rightarrow> int \<Rightarrow> string \<Rightarrow> 'a retry_run" where
  \<comment> \<open>\<open>let lastError: unknown\<close> starts as \<open>undefined\<close>\<close>
  "withRetry operation maxRetries baseDelay context =
     withRetry_loop operation maxRetries baseDelay context 1 (NonError ''undefined'') 0 []"

section \<open>The version resolver (src/services/cache.ts, class VersionResolver)\<close>

subsection \<open>String primitives\<close>

definition isDigit :: "char \<Rightarrow> bool" where
  \<comment> \<open>\<open>\d\<close> and \<open>[0-9]\<close>\<close>
  "isDigit c = (c \<in> set ''0123456789'')"

definition isLineTerminator :: "char \<Rightarrow> bool" where
  \<comment> \<open>what \<open>.\<close> does not match\<close>
  "isLineTerminator c = (c = CHR 0x0A \<or> c = CHR 0x0D)"

definition isWhiteSpace :: "char \<Rightarrow> bool" where
  \<comment> \<open>what \<open>trim()\<close> removes: tab, line feed, vertical tab, form feed, carriage return, space\<close>
  "isWhiteSpace c = (c \<in> set [CHR 0x09, CHR 0x0A, CHR 0x0B, CHR 0x0C, CHR 0x0D, CHR 0x20])"

definition trim :: "string \<Rightarrow> string" where
  "trim s = rev (dropWhile isWhiteSpace (rev (dropWhile isWhiteSpace s)))"

fun js_split :: "char \<Rightarrow> string \<Rightarrow> string list" where
  \<comment> \<open>\<open>String.prototype.split\<close> with a separator of one character\<close>
  "js_split sep [] = [[]]"
| "js_split sep (c # cs) =
     (if c = sep then [] # js_split sep cs
      else (case js_split sep cs of [] \<Rightarrow> [[c]] | p # ps \<Rightarrow> (c # p) # ps))"

definition Number :: "string \<Rightarrow> int" where
  \<comment> \<open>\<open>Number\<close> on a run of decimal digits, as an exact integer\<close>
  "Number ds = foldl (\<lambda>n c. 10 * n + (int (of_char c) - 48)) 0 ds"

text \<open>\<open>dotGroups\<close> consumes \<open>(\.[0-9]+)*\<close> greedily and returns what it consumed and
  the rest.\<close>

function dotGroups :: "string \<Rightarrow> string \<times> string" where
  "dotGroups s =
     (case s of
        [] \<Rightarrow> ([], s)
      | c # r \<Rightarrow>
          if c = CHR ''.'' \<and> takeWhile isDigit r \<noteq> [] then
            (let (g, rest) = dotGroups (dropWhile isDigit r)
             in (c # takeWhile isDigit r @ g, rest))
          else ([], s))"
  by pat_completeness auto
termination
  by (relation "measure length") (auto simp: length_dropWhile_le less_Suc_eq_le)

declare dotGroups.simps [simp del]

subsection \<open>Classification of a specifier\<close>

definition isSuffixChar :: "char \<Rightarrow> bool" where
  \<comment> \<open>the class \<open>[a-zA-Z0-9.-]\<close>\<close>
  "isSuffixChar c = (isAlphaNumeric c \<or> c = CHR ''.'' \<or> c = CHR ''-'')"

text \<open>
  \<open>/^[0-9]+(\.[0-9]+)*(-[a-zA-Z0-9.-]+)?$/\<close>. After a numeric prefix shorter than the
  greedy one the next character is a digit or a dot, which neither starts the suffix group
  nor ends the string, so the greedy prefix decides the match.
\<close>

definition isSpecificVersion :: "string \<Rightarrow> bool" where
  "isSpecificVersion version =
     (takeWhile isDigit version \<noteq> [] \<and>
      (case snd (dotGroups (dropWhile isDigit version)) of
         [] \<Rightarrow> True
       | c # t \<Rightarrow> c = CHR ''-'' \<and> t \<noteq> [] \<and> list_all isSuffixChar t))"

definition matchesDelimited :: "char \<Rightarrow> char \<Rightarrow> string \<Rightarrow> bool" where
  \<comment> \<open>a pattern \<open>/^O.+C$/\<close> for an opening character O and a closing character C\<close>
  "matchesDelimited opening closing version =
     (case version of
        [] \<Rightarrow> False
      | c # cs \<Rightarrow> c = opening \<and> cs \<noteq> [] \<and> last cs = closing \<and> butlast cs \<noteq> []
                 \<and> list_all (\<lambda>x. \<not> isLineTerminator x) (butlast cs))"

definition isVersionRange :: "string \<Rightarrow> bool" where
  "isVersionRange version =
     list_ex (\<lambda>(opening, closing). matchesDelimited opening closing version)
       [(CHR ''['', CHR '']''), (CHR ''('', CHR '')''), (CHR ''['', CHR '')''), (CHR ''('', CHR '']'')]"

subsection \<open>Range parsing\<close>

record VersionRange =
  minVersion :: "string option"
  maxVersion :: "string option"
  includeMin :: bool
  includeMax :: bool

definition stripDelimiters :: "string \<Rightarrow> string" where
  \<comment> \<open>\<open>range.replace(/^[\[\(]|[\]\)]$/g, '')\<close>: an opening character at the start goes,
      then a closing character at the end of what is left goes\<close>
  "stripDelimiters rangeSpec =
     (let r = (case rangeSpec of
                 [] \<Rightarrow> []
               | c # cs \<Rightarrow> if c = CHR ''['' \<or> c = CHR ''('' then cs else rangeSpec)
      in if r \<noteq> [] \<and> (last r = CHR '']'' \<or> last r = CHR '')'') then butlast r else r)"

definition trimmedPart :: "string list \<Rightarrow> nat \<Rightarrow> string option" where
  \<comment> \<open>\<open>parts[i]?.trim() || undefined\<close>: a missing or empty piece is \<open>undefined\<close>\<close>
  "trimmedPart parts i =
     (if i < length parts \<and> trim (parts ! i) \<noteq> [] then Some (trim (parts ! i)) else None)"

definition parseVersionRange :: "string \<Rightarrow> VersionRange" where
  "parseVersionRange rangeSpec =
     (let cleaned = stripDelimiters rangeSpec;
          parts = js_split CHR '','' cleaned
      in \<lparr>minVersion = trimmedPart parts 0,
          maxVersion = trimmedPart parts 1,
          includeMin = (rangeSpec \<noteq> [] \<and> hd rangeSpec = CHR ''[''),
          includeMax = (rangeSpec \<noteq> [] \<and> last rangeSpec = CHR '']'')\<rparr>)"

text \<open>
  The parse as the specification words it (4.3, Range parsing), for comparison with
  \<open>parseVersionRange\<close>: the outer delimiters go, the rest is split at its first comma
  into lower and upper text, an empty text is an unbounded side.
\<close>

definition parseVersionRange_spec :: "string \<Rightarrow> VersionRange" where
  "parseVersionRange_spec rangeSpec =
     (let content = butlast (tl rangeSpec);
          lowerText = takeWhile (\<lambda>c. c \<noteq> CHR '','') content;
          upperText = tl (dropWhile (\<lambda>c. c \<noteq> CHR '','') content)
      in \<lparr>minVersion = (if lowerText = [] then None else Some lowerText),
          maxVersion = (if upperText = [] then None else Some upperText),
          includeMin = (hd rangeSpec = CHR ''[''),
          includeMax = (last rangeSpec = CHR '']'')\<rparr>)"

subsection \<open>Version comparison\<close>

text \<open>
  \<open>version.match(/^(\d+(?:\.\d+)*)(.*)$/)\<close>: the numeric prefix and the rest, or no
  match. The prefix holds digits and dots only, so the rest is free of line terminators
  exactly when the whole string is; a shorter prefix leaves a longer rest and cannot help.
\<close>

definition matchVersion :: "string \<Rightarrow> (string \<times> string) option" where
  "matchVersion version =
     (let d = takeWhile isDigit version;
          (g, rest) = dotGroups (dropWhile isDigit version)
      in if d \<noteq> [] \<and> list_all (\<lambda>x. \<not> isLineTerminator x) rest then Some (d @ g, rest)
         else None)"

record ParsedVersion =
  numbers :: "int list"
  suffix :: string

definition parseVersion :: "string \<Rightarrow> ParsedVersion" where
  "parseVersion version =
     (case matchVersion version of
        None \<Rightarrow> \<lparr>numbers = [0], suffix = version\<rparr>
      | Some (num, rest) \<Rightarrow> \<lparr>numbers = map Number (js_split CHR ''.'' num), suffix = rest\<rparr>)"

definition numberAt :: "int list \<Rightarrow> nat \<Rightarrow> int" where
  \<comment> \<open>\<open>numbers[i] || 0\<close>\<close>
  "numberAt ns i = (if i < length ns then ns ! i else 0)"

text \<open>The loop over the numeric parts: the first difference, if there is one.\<close>

function compareNumbers :: "int list \<Rightarrow> int list \<Rightarrow> nat \<Rightarrow> nat \<Rightarrow> int option" where
  "compareNumbers numbersA numbersB maxLength i =
     (if i < maxLength then
        (let numA = numberAt numbersA i; numB = numberAt numbersB i
         in if numA \<noteq> numB then Some (numA - numB)
            else compareNumbers numbersA numbersB maxLength (Suc i))
      else None)"
  by pat_completeness auto
termination
  by (relation "measure (\<lambda>(numbersA, numbersB, maxLength, i). maxLength - i)") auto

declare compareNumbers.simps [simp del]

text \<open>
  \<open>localeCompare\<close> is the collation of the JavaScript runtime, not code of the
  repository: \<open>compareVersions\<close> takes it as the parameter \<open>lc\<close>.
\<close>

definition compareVersions :: "(string \<Rightarrow> string \<Rightarrow> int) \<Rightarrow> string \<Rightarrow> string \<Rightarrow> int" where
  "compareVersions lc a b =
     (let versionA = parseVersion a;
          versionB = parseVersion b;
          maxLength = max (length (numbers versionA)) (length (numbers versionB))
      in case compareNumbers (numbers versionA) (numbers versionB) maxLength 0 of
           Some d \<Rightarrow> d
         | None \<Rightarrow>
             if suffix versionA \<noteq> suffix versionB then
               (if suffix versionA = [] \<and> suffix versionB \<noteq> [] then 1
                else if suffix versionA \<noteq> [] \<and> suffix versionB = [] then - 1
                else lc (suffix versionA) (suffix versionB))
             else 0)"

text \<open>Modelled from the spec: \<open>localeCompare\<close> is missing from the sources; the spec has
  suffixes compared "lexicographically as plain strings". Used where a concrete collation
  is needed.\<close>

fun plainCompare :: "string \<Rightarrow> string \<Rightarrow> int" where
  "plainCompare [] [] = 0"
| "plainCompare [] (y # ys) = - 1"
| "plainCompare (x # xs) [] = 1"
| "plainCompare (x # xs) (y # ys) =
     (if (of_char x :: nat) < of_char y then - 1
      else if (of_char y :: nat) < of_char x then 1
      else plainCompare xs ys)"

subsection \<open>Range matching and resolution\<close>

definition truthy :: "string option \<Rightarrow> bool" where
  \<comment> \<open>\<open>if (minVersion)\<close>: false for \<open>undefined\<close> and for the empty string\<close>
  "truthy v = (case v of None \<Rightarrow> False | Some x \<Rightarrow> x \<noteq> [])"

definition versionMatchesRange ::
  "(string \<Rightarrow> string \<Rightarrow> int) \<Rightarrow> string \<Rightarrow> string option \<Rightarrow> string option \<Rightarrow> bool \<Rightarrow> bool \<Rightarrow> bool" where
  "versionMatchesRange lc version minV maxV inclMin inclMax =
     (if truthy minV \<and>
         (let comparison = compareVersions lc version (the minV)
          in if inclMin then comparison < 0 else comparison \<le> 0)
        then False
      else if truthy maxV \<and>
         (let comparison = compareVersions lc version (the maxV)
          in if inclMax then comparison > 0 else comparison \<ge> 0)
        then False
      else True)"

text \<open>
  The upstream client is a collaborator: \<open>versions\<close> is the list that
  \<open>mavenCentralApi.getVersions\<close> returned and \<open>versionExists\<close> the answer of
  \<open>mavenCentralApi.versionExists\<close>; a failing upstream call is outside the model.
\<close>

definition resolveVersionRange ::
  "(string \<Rightarrow> string \<Rightarrow> int) \<Rightarrow> string list \<Rightarrow> string \<Rightarrow> string \<Rightarrow> string \<Rightarrow> thrown + string" where
  "resolveVersionRange lc versions groupId artifactId rangeSpec =
     (let r = parseVersionRange rangeSpec;
          matchingVersions =
            filter (\<lambda>version. versionMatchesRange lc version (minVersion r) (maxVersion r)
                                (includeMin r) (includeMax r)) versions
      in case matchingVersions of
           [] \<Rightarrow> Inl (VersionNotFoundError (groupId @ '':'' @ artifactId) rangeSpec)
         | v # _ \<Rightarrow> Inr v)"

definition getLatestVersion :: "string list \<Rightarrow> string \<Rightarrow> string \<Rightarrow> thrown + string" where
  \<comment> \<open>MavenCentralApi.getLatestVersion\<close>
  "getLatestVersion versions groupId artifactId =
     (case versions of
        [] \<Rightarrow> Inl (PackageNotFoundError (groupId @ '':'' @ artifactId))
      | v # _ \<Rightarrow> Inr v)"

definition resolveVersion ::
  "(string \<Rightarrow> string \<Rightarrow> int) \<Rightarrow> string list \<Rightarrow> (string \<Rightarrow> bool) \<Rightarrow> string \<Rightarrow> string \<Rightarrow> string
     \<Rightarrow> thrown + string" where
  "resolveVersion lc versions versionExists groupId artifactId versionSpec =
     (let packageName = groupId @ '':'' @ artifactId
      in if versionSpec = ''latest'' \<or> versionSpec = [] then
           getLatestVersion versions groupId artifactId
         else if isSpecificVersion versionSpec then
           (if \<not> versionExists versionSpec then Inl (VersionNotFoundError packageName versionSpec)
            else Inr versionSpec)
         else if isVersionRange versionSpec then
           resolveVersionRange lc versions groupId artifactId versionSpec
         else
           (if \<not> versionExists versionSpec then Inl (VersionNotFoundError packageName versionSpec)
            else Inr versionSpec))"

section \<open>Stores used as examples\<close>

definition store2 :: "nat CacheService" where
  "store2 = \<lparr>cache = [(''x'', \<lparr>data = 1, timestamp = 0, ttl = 5\<rparr>),
                        (''b'', \<lparr>data = 2, timestamp = 0, ttl = 1000\<rparr>),
                        (''a'', \<lparr>data = 3, timestamp = 0, ttl = 10\<rparr>)],
             defaultTtl = 1000, maxSize = 3\<rparr>"

definition store3 :: "nat CacheService" where
  "store3 = \<lparr>cache = [(''a'', \<lparr>data = 1, timestamp = 0, ttl = 1000\<rparr>),
                        (''b'', \<lparr>data = 2, timestamp = 0, ttl = 1000\<rparr>)],
             defaultTtl = 1000, maxSize = 2\<rparr>"

section \<open>Properties of the cache store\<close>

lemma map_of_map_set_same: "map_of (map_set k e xs) k = Some e"
  by (induction xs) auto

lemma map_of_map_delete_same: "map_of (map_delete k xs) k = None"
  by (induction xs) (auto simp: map_delete_def)

lemma cache_set_cache:
  "map_of (cache (set_cache s t0 t1 key v ttl_opt)) key =
     Some \<lparr>data = v, timestamp = t0, ttl = (case ttl_opt of None \<Rightarrow> defaultTtl s | Some t \<Rightarrow> t)\<rparr>"
  by (simp add: set_cache_def Let_def map_of_map_set_same)

text \<open>
  Claim C2. An entry stored at \<open>storedAt\<close> with ttl \<open>t\<close> (the given one, or the default of
  the store) is returned by \<open>get\<close> while \<open>now - storedAt \<le> t\<close>, so at
  \<open>storedAt + t - 1\<close>; once \<open>now - storedAt > t\<close>, so at \<open>storedAt + t + 1\<close>, \<open>get\<close> reports
  absent and the entry is gone from the store. Whatever \<open>get\<close> returns from any store is
  the value of an entry that is not expired.
\<close>

theorem get_after_set_ttl:
  fixes s :: "'v CacheService" and storedAt sweepAt now :: int and key :: string and v :: 'v
    and ttl_opt :: "int option"
  defines "s1 \<equiv> set_cache s storedAt sweepAt key v ttl_opt"
  defines "t \<equiv> (case ttl_opt of None \<Rightarrow> defaultTtl s | Some t' \<Rightarrow> t')"
  shows "(now - storedAt \<le> t \<longrightarrow> get_cache s1 now key = (Some v, s1))
       \<and> (now - storedAt > t \<longrightarrow>
            fst (get_cache s1 now key) = None
          \<and> cache (snd (get_cache s1 now key)) = map_delete key (cache s1)
          \<and> map_of (cache (snd (get_cache s1 now key))) key = None)
       \<and> get_cache s1 (storedAt + t - 1) key = (Some v, s1)
       \<and> fst (get_cache s1 (storedAt + t + 1) key) = None
       \<and> (\<forall>s0 x s0'. get_cache (s0 :: 'v CacheService) now key = (Some x, s0') \<longrightarrow>
             (\<exists>e. map_of (cache s0) key = Some e \<and> data e = x \<and> now - timestamp e \<le> ttl e))"
  unfolding s1_def t_def
  by (auto simp: get_cache_def cache_set_cache expired_def map_of_map_delete_same
           split: option.splits if_splits)

theorem get_after_set_ttl_witness:
  "get_cache (set_cache (newCacheService (Some 1000) (Some 3)) 100 100 ''k'' (7::nat) (Some 50)) 149 ''k''
     = (Some 7, set_cache (newCacheService (Some 1000) (Some 3)) 100 100 ''k'' 7 (Some 50))
   \<and> fst (get_cache (set_cache (newCacheService (Some 1000) (Some 3)) 100 100 ''k'' (7::nat) (Some 50)) 151 ''k'') = None
   \<and> map_of (cache (snd (get_cache (set_cache (newCacheService (Some 1000) (Some 3)) 100 100 ''k'' (7::nat) (Some 50)) 151 ''k''))) ''k'' = None"
  using get_after_set_ttl [where now = 149 and storedAt = 100 and sweepAt = 100 and ttl_opt = "Some 50"
          and s = "newCacheService (Some 1000) (Some 3)" and key = "''k''" and v = "7::nat"]
        get_after_set_ttl [where now = 151 and storedAt = 100 and sweepAt = 100 and ttl_opt = "Some 50"
          and s = "newCacheService (Some 1000) (Some 3)" and key = "''k''" and v = "7::nat"]
  by (simp add: map_of_map_delete_same)

lemma map_set_fresh: "k \<notin> fst ` set xs \<Longrightarrow> map_set k e xs = xs @ [(k, e)]"
  by (induction xs) auto

lemma map_set_present:
  "distinct (map fst xs) \<Longrightarrow> k \<in> fst ` set xs \<Longrightarrow>
     map_set k e xs = map (\<lambda>p. if fst p = k then (k, e) else p) xs"
proof (induction xs)
  case Nil
  then show ?case by simp
next
  case (Cons p xs)
  show ?case
  proof (cases "fst p = k")
    case True
    with Cons.prems have "k \<notin> fst ` set xs" by auto
    then have "map (\<lambda>p. if fst p = k then (k, e) else p) xs = xs"
      by (induction xs) auto
    with True show ?thesis by (cases p) simp
  next
    case False
    with Cons show ?thesis by (cases p) auto
  qed
qed

lemma length_map_set_le: "length (map_set k e xs) \<le> Suc (length xs)"
  by (induction xs) auto

lemma keys_map_set: "fst ` set (map_set k e xs) = insert k (fst ` set xs)"
proof (induction xs)
  case Nil
  then show ?case by simp
next
  case (Cons p xs)
  then show ?case by (cases p) (simp add: insert_commute)
qed

lemma distinct_map_set: "distinct (map fst xs) \<Longrightarrow> distinct (map fst (map_set k e xs))"
proof (induction xs)
  case Nil
  then show ?case by simp
next
  case (Cons p xs)
  then show ?case
    using keys_map_set [of k e xs] by (cases p) auto
qed

lemma map_delete_hd:
  "distinct (map fst ((k, e) # xs)) \<Longrightarrow> map_delete k ((k, e) # xs) = xs"
  by (auto simp: map_delete_def filter_id_conv rev_image_eqI)

text \<open>
  Claim C6. Expired and live are read at the clock reading of the sweep, \<open>sweepNow\<close>;
  the new entry carries the earlier reading \<open>now\<close>. A store exactly at capacity that
  holds an expired entry takes a fresh key by sweeping only: every expired entry goes, every
  live entry stays, in order, and the new entry comes last. In any call of \<open>set\<close>, a
  live entry under another key that is lost was the first entry of the swept store, and the
  swept store was still at capacity.
\<close>
theorem set_sweeps_before_evicting:
  fixes s :: "'v CacheService"
  assumes "distinct (map fst (cache s))"
  shows "(size_of s = maxSize s \<and> (\<exists>p \<in> set (cache s). expired sweepNow (snd p))
             \<and> key \<notin> fst ` set (cache s) \<longrightarrow>
           cache (set_cache s now sweepNow key v ttl_opt) =
             filter (\<lambda>p. \<not> expired sweepNow (snd p)) (cache s)
               @ [(key, \<lparr>data = v, timestamp = now,
                         ttl = (case ttl_opt of None \<Rightarrow> defaultTtl s | Some t \<Rightarrow> t)\<rparr>)])
       \<and> (\<forall>p \<in> set (cache s). \<not> expired sweepNow (snd p) \<and> fst p \<noteq> key
             \<and> p \<notin> set (cache (set_cache s now sweepNow key v ttl_opt)) \<longrightarrow>
               size_of (cleanup s sweepNow) \<ge> maxSize s \<and> p = hd (cache (cleanup s sweepNow)))"
proof (intro conjI impI ballI)
  assume a: "size_of s = maxSize s \<and> (\<exists>p \<in> set (cache s). expired sweepNow (snd p))
             \<and> key \<notin> fst ` set (cache s)"
  then obtain p where p: "p \<in> set (cache s)" "expired sweepNow (snd p)" by blast
  have "length (filter (\<lambda>p. \<not> expired sweepNow (snd p)) (cache s)) < length (cache s)"
    using p length_filter_less [of p "cache s" "\<lambda>p. \<not> expired sweepNow (snd p)"] by simp
  then have lt: "size_of (cleanup s sweepNow) < maxSize s"
    using a by (simp add: size_of_def cleanup_def)
  have fresh: "key \<notin> fst ` set (cache (cleanup s sweepNow))"
    using a by (auto simp: cleanup_def)
  show "cache (set_cache s now sweepNow key v ttl_opt) =
             filter (\<lambda>p. \<not> expired sweepNow (snd p)) (cache s)
               @ [(key, \<lparr>data = v, timestamp = now,
                         ttl = (case ttl_opt of None \<Rightarrow> defaultTtl s | Some t \<Rightarrow> t)\<rparr>)]"
    using a lt fresh by (simp add: set_cache_def Let_def map_set_fresh cleanup_def)
next
  fix p
  assume p: "p \<in> set (cache s)"
    and a: "\<not> expired sweepNow (snd p) \<and> fst p \<noteq> key \<and> p \<notin> set (cache (set_cache s now sweepNow key v ttl_opt))"
  have keep: "\<And>xs e. p \<in> set xs \<Longrightarrow> p \<in> set (map_set key e xs)"
  proof -
    fix xs :: "(string \<times> 'v CacheEntry) list" and e
    assume "p \<in> set xs"
    then show "p \<in> set (map_set key e xs)"
      using a by (induction xs) auto
  qed
  have pc: "p \<in> set (cache (cleanup s sweepNow))"
    using p a by (simp add: cleanup_def)
  have dc: "distinct (map fst (cache (cleanup s sweepNow)))"
    using assms by (simp add: cleanup_def distinct_map_filter)
  show "size_of (cleanup s sweepNow) \<ge> maxSize s"
  proof (rule ccontr)
    assume n: "\<not> maxSize s \<le> size_of (cleanup s sweepNow)"
    have "p \<in> set (cache (set_cache s now sweepNow key v ttl_opt))"
    proof (cases "size_of s \<ge> maxSize s")
      case True
      with n show ?thesis using keep [OF pc] by (simp add: set_cache_def Let_def cleanup_def)
    next
      case False
      then show ?thesis using keep [OF p] by (simp add: set_cache_def Let_def)
    qed
    with a show False by simp
  qed
  show "p = hd (cache (cleanup s sweepNow))"
  proof (rule ccontr)
    assume n: "p \<noteq> hd (cache (cleanup s sweepNow))"
    from pc obtain q qs where q: "cache (cleanup s sweepNow) = q # qs" by (cases "cache (cleanup s sweepNow)") auto
    with n pc have pq: "p \<in> set qs" "p \<noteq> q" by auto
    with dc q have "fst p \<noteq> fst q" by (auto simp: rev_image_eqI)
    then have pe: "p \<in> set (cache (evict_oldest (cleanup s sweepNow)))"
      using q pq by (cases q) (auto simp: evict_oldest_def map_delete_def)
    have "p \<in> set (cache (set_cache s now sweepNow key v ttl_opt))"
    proof (cases "size_of s \<ge> maxSize s")
      case True
      then show ?thesis using keep [OF pc] keep [OF pe]
        by (simp add: set_cache_def Let_def cleanup_def)
    next
      case False
      then show ?thesis using keep [OF p] by (simp add: set_cache_def Let_def)
    qed
    with a show False by simp
  qed
qed


theorem set_sweeps_before_evicting_witness:
  "distinct (map fst (cache store2)) \<and> size_of store2 = maxSize store2
   \<and> (\<exists>p \<in> set (cache store2). expired 11 (snd p))
   \<and> (\<exists>p \<in> set (cache store2). \<not> expired 11 (snd p))
   \<and> ''c'' \<notin> fst ` set (cache store2)
   \<and> cache (set_cache store2 10 11 ''c'' 4 None) =
        [(''b'', \<lparr>data = 2, timestamp = 0, ttl = 1000\<rparr>),
         (''c'', \<lparr>data = 4, timestamp = 10, ttl = 1000\<rparr>)]"
  using set_sweeps_before_evicting [of store2 11 "''c''" 10 4 None]
  by (simp add: store2_def size_of_def expired_def)

text \<open>
  Claim C7, as amended. Below capacity, \<open>set\<close> on a present key replaces value, timestamp
  and ttl of that entry where it stands: the order of the keys is unchanged, nothing is swept
  or evicted and every entry under another key is kept.
\<close>
theorem set_present_key_below_capacity:
  fixes s :: "'v CacheService"
  assumes "distinct (map fst (cache s))"
    and "key \<in> fst ` set (cache s)"
    and "size_of s < maxSize s"
  shows "cache (set_cache s now sweepNow key v ttl_opt) =
           map (\<lambda>p. if fst p = key
                     then (key, \<lparr>data = v, timestamp = now,
                                 ttl = (case ttl_opt of None \<Rightarrow> defaultTtl s | Some t \<Rightarrow> t)\<rparr>)
                     else p) (cache s)
       \<and> map fst (cache (set_cache s now sweepNow key v ttl_opt)) = map fst (cache s)
       \<and> (\<forall>p \<in> set (cache s). fst p \<noteq> key \<longrightarrow> p \<in> set (cache (set_cache s now sweepNow key v ttl_opt)))"
proof -
  have c: "cache (set_cache s now sweepNow key v ttl_opt) =
           map (\<lambda>p. if fst p = key
                     then (key, \<lparr>data = v, timestamp = now,
                                 ttl = (case ttl_opt of None \<Rightarrow> defaultTtl s | Some t \<Rightarrow> t)\<rparr>)
                     else p) (cache s)"
    using assms by (simp add: set_cache_def Let_def map_set_present)
  have k: "map fst (cache (set_cache s now sweepNow key v ttl_opt)) = map fst (cache s)"
    unfolding c by (induction "cache s") auto
  have o: "\<forall>p \<in> set (cache s). fst p \<noteq> key \<longrightarrow> p \<in> set (cache (set_cache s now sweepNow key v ttl_opt))"
    unfolding c by force
  from c k o show ?thesis by blast
qed

theorem set_present_key_below_capacity_witness:
  "distinct (map fst (cache (store3\<lparr>maxSize := 3\<rparr>)))
   \<and> ''a'' \<in> fst ` set (cache (store3\<lparr>maxSize := 3\<rparr>))
   \<and> size_of (store3\<lparr>maxSize := 3\<rparr>) < maxSize (store3\<lparr>maxSize := 3\<rparr>)
   \<and> cache (set_cache (store3\<lparr>maxSize := 3\<rparr>) 10 11 ''a'' 5 None) =
        [(''a'', \<lparr>data = 5, timestamp = 10, ttl = 1000\<rparr>),
         (''b'', \<lparr>data = 2, timestamp = 0, ttl = 1000\<rparr>)]"
  using set_present_key_below_capacity [where s = "store3\<lparr>maxSize := 3\<rparr>" and key = "''a''" and now = 10
      and sweepNow = 11 and v = 5 and ttl_opt = None]
  by (simp add: store3_def size_of_def)

theorem set_present_key_counterexample:
  "''b'' \<in> fst ` set (cache store3)
   \<and> map_of (cache store3) ''a'' = Some \<lparr>data = 1, timestamp = 0, ttl = 1000\<rparr>
   \<and> map_of (cache (set_cache store3 10 11 ''b'' 5 None)) ''a'' = None
   \<and> map fst (cache (set_cache (store3\<lparr>maxSize := 3\<rparr>) 10 11 ''a'' 5 None)) = [''a'', ''b'']"
  by (simp add: store3_def set_cache_def size_of_def cleanup_def expired_def evict_oldest_def
        map_delete_def)

text \<open>
  Claim C1 at the failing input. A store bounded by one entry that holds the empty key is
  given a second key: the guard \<open>if (oldestKey)\<close> reads the empty string as false, nothing
  is evicted and the store holds two entries.
\<close>
theorem capacity_exceeded_by_empty_key:
  "maxSize (newCacheService (Some 1000) (Some 1) :: nat CacheService) = 1
   \<and> size_of (set_cache (newCacheService (Some 1000) (Some 1)) 0 0 [] (1::nat) None) = 1
   \<and> size_of (set_cache (set_cache (newCacheService (Some 1000) (Some 1)) 0 0 [] (1::nat) None)
                 1 1 ''a'' 2 None) = 2"
  by (simp add: newCacheService_def set_cache_def size_of_def cleanup_def expired_def
        evict_oldest_def map_delete_def)

text \<open>
  With a positive bound and keys that are not empty, \<open>set\<close> keeps the store within its
  bound, and keeps the keys distinct and not empty.
\<close>

lemma set_cache_keeps_capacity:
  fixes s :: "'v CacheService"
  assumes "distinct (map fst (cache s))"
    and "[] \<notin> fst ` set (cache s)"
    and "size_of s \<le> maxSize s"
    and "0 < maxSize s"
    and "key \<noteq> []"
  shows "size_of (set_cache s now sweepNow key v ttl_opt) \<le> maxSize (set_cache s now sweepNow key v ttl_opt)
       \<and> maxSize (set_cache s now sweepNow key v ttl_opt) = maxSize s
       \<and> distinct (map fst (cache (set_cache s now sweepNow key v ttl_opt)))
       \<and> [] \<notin> fst ` set (cache (set_cache s now sweepNow key v ttl_opt))"
proof -
  define s1 where "s1 = (if size_of s \<ge> maxSize s then
                  (let s' = cleanup s sweepNow
                   in if size_of s' \<ge> maxSize s' then evict_oldest s' else s')
                else s)"
  have res: "set_cache s now sweepNow key v ttl_opt =
      s1\<lparr>cache := map_set key \<lparr>data = v, timestamp = now,
                   ttl = (case ttl_opt of None \<Rightarrow> defaultTtl s | Some t \<Rightarrow> t)\<rparr> (cache s1)\<rparr>"
    by (simp add: set_cache_def s1_def Let_def)
  let ?c = "cleanup s sweepNow"
  have "size_of ?c \<le> size_of s"
    by (simp add: cleanup_def size_of_def)
  then have c: "distinct (map fst (cache ?c))" "[] \<notin> fst ` set (cache ?c)"
    "size_of ?c \<le> maxSize s" "maxSize ?c = maxSize s"
    using assms by (auto simp: cleanup_def distinct_map_filter)
  have e: "size_of ?c \<ge> maxSize s \<Longrightarrow> size_of (evict_oldest ?c) < maxSize s
      \<and> distinct (map fst (cache (evict_oldest ?c))) \<and> [] \<notin> fst ` set (cache (evict_oldest ?c))
      \<and> maxSize (evict_oldest ?c) = maxSize s"
  proof -
    assume full: "size_of ?c \<ge> maxSize s"
    with assms(4) obtain k x xs where xs: "cache ?c = (k, x) # xs"
      by (cases "cache ?c") (auto simp: size_of_def)
    with c have k: "k \<noteq> []" by auto
    have "map_delete k ((k, x) # xs) = xs"
      using c(1) xs map_delete_hd [of k x xs] by simp
    then show ?thesis using xs k c by (auto simp: evict_oldest_def size_of_def)
  qed
  have s1: "size_of s1 < maxSize s \<or> (key \<in> fst ` set (cache s1) \<and> size_of s1 \<le> maxSize s)"
    "distinct (map fst (cache s1))" "[] \<notin> fst ` set (cache s1)" "maxSize s1 = maxSize s"
    using assms c e by (auto simp: s1_def Let_def)
  define ent where "ent = \<lparr>data = v, timestamp = now,
                   ttl = (case ttl_opt of None \<Rightarrow> defaultTtl s | Some t \<Rightarrow> t)\<rparr>"
  let ?r = "map_set key ent (cache s1)"
  have "int (length ?r) \<le> maxSize s"
  proof (cases "key \<in> fst ` set (cache s1)")
    case True
    then have "length ?r = length (cache s1)"
      using s1(2) by (simp add: map_set_present)
    then show ?thesis using s1(1) by (auto simp: size_of_def)
  next
    case False
    then have "int (length (cache s1)) < maxSize s"
      using s1(1) by (auto simp: size_of_def)
    then show ?thesis using length_map_set_le [of key ent "cache s1"] by linarith
  qed
  moreover have "distinct (map fst ?r)"
    using s1(2) by (rule distinct_map_set)
  moreover have "[] \<notin> fst ` set ?r"
    using s1(3) assms(5) by (simp add: keys_map_set)
  ultimately show ?thesis
    unfolding res using s1(4) by (simp add: size_of_def ent_def)
qed

text \<open>So does every sequence of such calls, from the empty store in particular.\<close>

lemma set_all_keeps_capacity:
  fixes s :: "'v CacheService"
  assumes "distinct (map fst (cache s))"
    and "[] \<notin> fst ` set (cache s)"
    and "size_of s \<le> maxSize s"
    and "0 < maxSize s"
    and "list_all (\<lambda>c. fst (snd (snd c)) \<noteq> []) calls"
  shows "size_of (set_all s calls) \<le> maxSize s"
proof -
  have "size_of (set_all s calls) \<le> maxSize (set_all s calls)
      \<and> maxSize (set_all s calls) = maxSize s
      \<and> distinct (map fst (cache (set_all s calls)))
      \<and> [] \<notin> fst ` set (cache (set_all s calls))"
    using assms
  proof (induction calls arbitrary: s)
    case Nil
    then show ?case by (simp add: set_all_def)
  next
    case (Cons c calls)
    obtain now sweepNow key d ttl_opt where c: "c = (now, sweepNow, key, d, ttl_opt)"
      by (cases c) auto
    let ?s = "set_cache s now sweepNow key d ttl_opt"
    from Cons.prems c have k: "key \<noteq> []" by simp
    note step = set_cache_keeps_capacity [OF Cons.prems(1-4) k, of now sweepNow d ttl_opt]
    from step Cons.prems(4) have pos: "0 < maxSize ?s" by simp
    from Cons.prems(5) have rest: "list_all (\<lambda>c. fst (snd (snd c)) \<noteq> []) calls" by simp
    have "set_all s (c # calls) = set_all ?s calls"
      by (simp add: set_all_def c)
    with Cons.IH [of ?s] step pos rest show ?case by simp
  qed
  then show ?thesis by simp
qed

lemma capacity_invariant_from_empty:
  assumes "0 < m" and "list_all (\<lambda>c. fst (snd (snd c)) \<noteq> []) calls"
  shows "size_of (set_all (newCacheService t (Some m)) calls) \<le> m"
  using set_all_keeps_capacity [of "newCacheService t (Some m)" calls] assms
  by (simp add: newCacheService_def size_of_def)

subsection \<open>Search keys\<close>

lemma base64_triple: "base64 (a # b # c # rest) = base64 [a, b, c] @ base64 rest"
  by (simp add: Let_def)

lemma base64_spring_boot: "base64 (''spring boot:'' @ rest) = ''c3ByaW5nIGJvb3Q6'' @ base64 rest"
proof -
  have 1: "base64 ''spr'' = ''c3By''" by (simp add: base64_digit_def base64_alphabet_def Let_def)
  have 2: "base64 ''ing'' = ''aW5n''" by (simp add: base64_digit_def base64_alphabet_def Let_def)
  have 3: "base64 '' bo'' = ''IGJv''" by (simp add: base64_digit_def base64_alphabet_def Let_def)
  have 4: "base64 ''ot:'' = ''b3Q6''" by (simp add: base64_digit_def base64_alphabet_def Let_def)
  have "base64 (''spring boot:'' @ rest)
          = base64 ''spr'' @ base64 ''ing'' @ base64 '' bo'' @ base64 ''ot:'' @ base64 rest"
    by (simp only: append_Cons append_Nil base64_triple [symmetric])
  also have "\<dots> = ''c3ByaW5nIGJvb3Q6'' @ base64 rest"
    unfolding 1 2 3 4 by (simp only: append_Cons append_Nil)
  finally show ?thesis .
qed


lemma hash_spring_boot:
  "take 16 (filter isAlphaNumeric (base64 (''spring boot:'' @ r))) = ''c3ByaW5nIGJvb3Q6''"
proof -
  have f: "filter isAlphaNumeric ''c3ByaW5nIGJvb3Q6'' = ''c3ByaW5nIGJvb3Q6''"
    by (simp add: isAlphaNumeric_def)
  have l: "length ''c3ByaW5nIGJvb3Q6'' = 16"
    by simp
  show ?thesis
    unfolding base64_spring_boot filter_append f
    by (simp only: take_append l take_all [OF order_refl [of "length _"]]) simp
qed

text \<open>
  Claim C9 at the failing input. The hash keeps 16 base64 digits, that is the first 12
  bytes of the joined parameters; for the query \<open>spring boot\<close> these are the query and
  its separator, so the key is the same for every limit, quality and popularity.
\<close>

theorem generateSearchKey_spring_boot:
  "generateSearchKey ''spring boot'' limit quality popularity = ''search:c3ByaW5nIGJvb3Q6''"
proof -
  have j: "join '':'' [''spring boot'', x, y, z] = ''spring boot:'' @ (x @ '':'' @ y @ '':'' @ z)"
    for x y z
    by (simp add: join_def)
  show ?thesis
    unfolding generateSearchKey_def Let_def j hash_spring_boot by (simp only: append_Cons append_Nil)
qed

section \<open>Properties of the retry policy\<close>

lemma isTyped_handleApiError: "isTyped (handleApiError e ctx)"
  by (cases e) (simp_all add: NetworkError_def RateLimitError_def)


lemma withRetry_loop_sleeps:
  assumes "1 \<le> attempt" and "attempt \<le> maxRetries" and "calls = attempt - 1"
    and "slept = map (\<lambda>a. baseDelay * 2 ^ (a - 1)) [1..<attempt]"
  shows "sleeps (withRetry_loop operation maxRetries baseDelay ctx attempt lastError calls slept)
           = map (\<lambda>a. baseDelay * 2 ^ (a - 1))
               [1..<invocations (withRetry_loop operation maxRetries baseDelay ctx attempt lastError calls slept)]
       \<and> invocations (withRetry_loop operation maxRetries baseDelay ctx attempt lastError calls slept)
           \<le> maxRetries"
  using assms
proof (induction operation maxRetries baseDelay ctx attempt lastError calls slept
       rule: withRetry_loop.induct)
  case (1 operation maxRetries baseDelay ctx attempt lastError calls slept)
  show ?case
  proof (cases "operation attempt")
    case (Inr v)
    with "1.prems" show ?thesis by (simp add: withRetry_loop.simps)
  next
    case (Inl e)
    show ?thesis
    proof (cases "isClientError e \<or> attempt = maxRetries")
      case True
      with Inl "1.prems" show ?thesis by (auto simp: withRetry_loop.simps)
    next
      case False
      with "1.prems" have lt: "Suc attempt \<le> maxRetries" by simp
      have "slept @ [baseDelay * 2 ^ (attempt - 1)]
              = map (\<lambda>a. baseDelay * 2 ^ (a - 1)) [1..<Suc attempt]"
        using "1.prems" by simp
      then show ?thesis
        using "1.IH" [OF _ Inl _ _ _ lt] False "1.prems" Inl lt
        by (subst (1 2 3) withRetry_loop.simps) simp
    qed
  qed
qed

lemma withRetry_loop_retryable:
  assumes "\<forall>k. attempt \<le> k \<and> k \<le> maxRetries \<longrightarrow> (\<exists>e. operation k = Inl e \<and> \<not> isClientError e)"
    and "attempt \<le> maxRetries"
  shows "invocations (withRetry_loop operation maxRetries baseDelay ctx attempt lastError calls slept)
           = calls + (Suc maxRetries - attempt)
       \<and> (\<exists>e. operation maxRetries = Inl e \<and>
            outcome (withRetry_loop operation maxRetries baseDelay ctx attempt lastError calls slept)
              = Inl (handleApiError e ctx))"
  using assms
proof (induction operation maxRetries baseDelay ctx attempt lastError calls slept
       rule: withRetry_loop.induct)
  case (1 operation maxRetries baseDelay ctx attempt lastError calls slept)
  from "1.prems" obtain e where e: "operation attempt = Inl e" "\<not> isClientError e" by auto
  show ?case
  proof (cases "attempt = maxRetries")
    case True
    with e "1.prems" show ?thesis by (simp add: withRetry_loop.simps)
  next
    case False
    with "1.prems" have lt: "Suc attempt \<le> maxRetries" by simp
    have "\<forall>k. Suc attempt \<le> k \<and> k \<le> maxRetries \<longrightarrow> (\<exists>e. operation k = Inl e \<and> \<not> isClientError e)"
      using "1.prems" by auto
    from "1.IH" [OF _ e(1) e(2) False this lt] "1.prems" e False lt
    show ?thesis by (subst (1 2) withRetry_loop.simps) (simp add: Suc_diff_le)
  qed
qed

text \<open>
  Claim C5. An operation that fails with a retryable error at every attempt is invoked
  \<open>maxRetries\<close> times and a typed error is thrown; an operation whose first invocation fails
  with a client error (status in [400,500), not 429) is invoked once, the same error is
  thrown and nothing is slept; in every run the delays slept are
  \<open>baseDelay * 2^(attempt-1)\<close> for the attempts before the last invocation.
\<close>
theorem withRetry_attempts_and_backoff:
  fixes operation :: "nat \<Rightarrow> thrown + 'a" and maxRetries :: nat and baseDelay :: int
    and ctx :: string
  defines "r \<equiv> withRetry operation maxRetries baseDelay ctx"
  shows "((\<forall>k. 1 \<le> k \<and> k \<le> maxRetries \<longrightarrow> (\<exists>e. operation k = Inl e \<and> \<not> isClientError e)) \<longrightarrow>
            invocations r = maxRetries \<and> (\<exists>e. outcome r = Inl e \<and> isTyped e))
       \<and> (\<forall>e. 1 \<le> maxRetries \<and> operation 1 = Inl e \<and> isClientError e \<longrightarrow>
            invocations r = 1 \<and> outcome r = Inl e \<and> sleeps r = [])
       \<and> sleeps r = map (\<lambda>attempt. baseDelay * 2 ^ (attempt - 1)) [1..<invocations r]
       \<and> invocations r \<le> maxRetries"
proof (cases "maxRetries = 0")
  case True
  then show ?thesis
    by (simp add: r_def withRetry_def withRetry_loop.simps)
next
  case False
  then have m: "1 \<le> maxRetries" by simp
  have a: "(\<forall>k. 1 \<le> k \<and> k \<le> maxRetries \<longrightarrow> (\<exists>e. operation k = Inl e \<and> \<not> isClientError e)) \<longrightarrow>
            invocations r = maxRetries \<and> (\<exists>e. outcome r = Inl e \<and> isTyped e)"
  proof
    assume h: "\<forall>k. 1 \<le> k \<and> k \<le> maxRetries \<longrightarrow> (\<exists>e. operation k = Inl e \<and> \<not> isClientError e)"
    from withRetry_loop_retryable [OF h m, of baseDelay ctx "NonError ''undefined''" 0 "[]"]
    show "invocations r = maxRetries \<and> (\<exists>e. outcome r = Inl e \<and> isTyped e)"
      by (auto simp: r_def withRetry_def isTyped_handleApiError)
  qed
  have b: "\<forall>e. 1 \<le> maxRetries \<and> operation 1 = Inl e \<and> isClientError e \<longrightarrow>
            invocations r = 1 \<and> outcome r = Inl e \<and> sleeps r = []"
    by (simp add: r_def withRetry_def withRetry_loop.simps)
  have c: "sleeps r = map (\<lambda>attempt. baseDelay * 2 ^ (attempt - 1)) [1..<invocations r]
       \<and> invocations r \<le> maxRetries"
    using withRetry_loop_sleeps [of 1 maxRetries 0 "[]" baseDelay operation ctx "NonError ''undefined''"] m
    by (simp add: r_def withRetry_def)
  from a b c show ?thesis by blast
qed

theorem withRetry_attempts_and_backoff_witness:
  "\<not> isClientError (NetworkError ''down'')
   \<and> invocations (withRetry (\<lambda>k. (Inl (NetworkError ''down'') :: thrown + nat)) 3 1000 ''fetch'') = 3
   \<and> sleeps (withRetry (\<lambda>k. (Inl (NetworkError ''down'') :: thrown + nat)) 3 1000 ''fetch'')
       = [1000, 2000]
   \<and> isClientError (PackageNotFoundError ''g:a'')
   \<and> invocations (withRetry (\<lambda>k. (Inl (PackageNotFoundError ''g:a'') :: thrown + nat)) 3 1000 ''fetch'') = 1
   \<and> outcome (withRetry (\<lambda>k. (Inl (PackageNotFoundError ''g:a'') :: thrown + nat)) 3 1000 ''fetch'')
       = Inl (PackageNotFoundError ''g:a'')"
proof -
  let ?down = "\<lambda>k::nat. (Inl (NetworkError ''down'') :: thrown + nat)"
  let ?missing = "\<lambda>k::nat. (Inl (PackageNotFoundError ''g:a'') :: thrown + nat)"
  have h1: "\<forall>k. 1 \<le> k \<and> k \<le> (3::nat) \<longrightarrow> (\<exists>e. ?down k = Inl e \<and> \<not> isClientError e)"
    by (simp add: NetworkError_def)
  have h2: "isClientError (PackageNotFoundError ''g:a'')"
    by (simp add: PackageNotFoundError_def)
  note down = withRetry_attempts_and_backoff [where operation = ?down and maxRetries = 3
      and baseDelay = 1000 and ctx = "''fetch''"]
  note missing = withRetry_attempts_and_backoff [where operation = ?missing and maxRetries = 3
      and baseDelay = 1000 and ctx = "''fetch''"]
  from down h1 have d1: "invocations (withRetry ?down 3 1000 ''fetch'') = 3"
    by blast
  from down have "sleeps (withRetry ?down 3 1000 ''fetch'')
      = map (\<lambda>attempt. 1000 * 2 ^ (attempt - 1)) [1..<invocations (withRetry ?down 3 1000 ''fetch'')]"
    by blast
  then have d2: "sleeps (withRetry ?down 3 1000 ''fetch'') = [1000, 2000]"
    unfolding d1 by (simp add: upt_rec)
  from missing h2 have m: "invocations (withRetry ?missing 3 1000 ''fetch'') = 1
      \<and> outcome (withRetry ?missing 3 1000 ''fetch'') = Inl (PackageNotFoundError ''g:a'')"
    by simp
  have h0: "\<not> isClientError (NetworkError ''down'')"
    by (simp add: NetworkError_def)
  from h0 h2 d1 d2 m show ?thesis by blast
qed

section \<open>Properties of version comparison\<close>

lemma compareNumbers_swap:
  "compareNumbers B A n i = map_option uminus (compareNumbers A B n i)"
proof (induction A B n i rule: compareNumbers.induct)
  case (1 A B n i)
  show ?case
  proof (cases "i < n \<and> numberAt A i = numberAt B i")
    case True
    then show ?thesis using "1.IH" by (subst (1 2) compareNumbers.simps) (simp add: Let_def)
  next
    case False
    then show ?thesis by (subst (1 2) compareNumbers.simps) (auto simp: Let_def)
  qed
qed

lemma compareNumbers_eq: "A = B \<Longrightarrow> compareNumbers A B n i = None"
proof (induction A B n i rule: compareNumbers.induct)
  case (1 A B n i)
  then show ?case by (subst compareNumbers.simps) (simp add: Let_def)
qed

lemma compareNumbers_same: "compareNumbers A A n i = None"
  by (rule compareNumbers_eq) simp

lemma compareVersions_same: "compareVersions lc a a = 0"
  by (simp add: compareVersions_def Let_def compareNumbers_same)

lemma plainCompare_antisym: "plainCompare x y = - plainCompare y x"
  by (induction x y rule: plainCompare.induct) auto

text \<open>
  Claim C3. For a collation whose sign flips when its arguments are swapped,
  \<open>compareVersions a b\<close> is exactly one of negative, zero and positive, and its sign is the
  negation of the sign of \<open>compareVersions b a\<close>.
\<close>
theorem compareVersions_sign_antisymmetric:
  assumes "\<forall>x y. sgn (lc x y) = - sgn (lc y x)"
  shows "(compareVersions lc a b < 0 \<and> compareVersions lc a b \<noteq> 0 \<and> \<not> compareVersions lc a b > 0
          \<or> \<not> compareVersions lc a b < 0 \<and> compareVersions lc a b = 0 \<and> \<not> compareVersions lc a b > 0
          \<or> \<not> compareVersions lc a b < 0 \<and> compareVersions lc a b \<noteq> 0 \<and> compareVersions lc a b > 0)
       \<and> sgn (compareVersions lc a b) = - sgn (compareVersions lc b a)"
proof
  show "compareVersions lc a b < 0 \<and> compareVersions lc a b \<noteq> 0 \<and> \<not> compareVersions lc a b > 0
          \<or> \<not> compareVersions lc a b < 0 \<and> compareVersions lc a b = 0 \<and> \<not> compareVersions lc a b > 0
          \<or> \<not> compareVersions lc a b < 0 \<and> compareVersions lc a b \<noteq> 0 \<and> compareVersions lc a b > 0"
    by linarith
next
  let ?A = "parseVersion a" and ?B = "parseVersion b"
  let ?n = "max (length (numbers ?A)) (length (numbers ?B))"
  have sw: "compareNumbers (numbers ?B) (numbers ?A) ?n 0
              = map_option uminus (compareNumbers (numbers ?A) (numbers ?B) ?n 0)"
    by (rule compareNumbers_swap)
  show "sgn (compareVersions lc a b) = - sgn (compareVersions lc b a)"
  proof (cases "compareNumbers (numbers ?A) (numbers ?B) ?n 0")
    case (Some d)
    with sw show ?thesis
      by (simp add: compareVersions_def Let_def max.commute sgn_minus)
  next
    case None
    with sw have l: "compareVersions lc a b =
        (if suffix ?A \<noteq> suffix ?B then
               (if suffix ?A = [] \<and> suffix ?B \<noteq> [] then 1
                else if suffix ?A \<noteq> [] \<and> suffix ?B = [] then - 1
                else lc (suffix ?A) (suffix ?B))
             else 0)"
      and r: "compareVersions lc b a =
        (if suffix ?B \<noteq> suffix ?A then
               (if suffix ?B = [] \<and> suffix ?A \<noteq> [] then 1
                else if suffix ?B \<noteq> [] \<and> suffix ?A = [] then - 1
                else lc (suffix ?B) (suffix ?A))
             else 0)"
      by (simp_all add: compareVersions_def Let_def max.commute)
    have "sgn (lc (suffix ?A) (suffix ?B)) = - sgn (lc (suffix ?B) (suffix ?A))"
      using assms by blast
    then show ?thesis unfolding l r by auto
  qed
qed

theorem compareVersions_sign_antisymmetric_witness:
  "(\<forall>x y. sgn (plainCompare x y) = - sgn (plainCompare y x))
   \<and> compareVersions plainCompare ''1.0.0-alpha'' ''1.0.0-beta'' < 0
   \<and> compareVersions plainCompare ''1.0.0-beta'' ''1.0.0-alpha'' > 0"
proof -
  have h: "\<forall>x y. sgn (plainCompare x y) = - sgn (plainCompare y x)"
  proof (intro allI)
    fix x y
    have "sgn (plainCompare x y) = sgn (- plainCompare y x)"
      by (rule arg_cong [OF plainCompare_antisym])
    then show "sgn (plainCompare x y) = - sgn (plainCompare y x)"
      by (simp only: sgn_minus)
  qed
  have lt: "compareVersions plainCompare ''1.0.0-alpha'' ''1.0.0-beta'' < 0"
    by code_simp
  have "sgn (compareVersions plainCompare ''1.0.0-alpha'' ''1.0.0-beta'')
          = - sgn (compareVersions plainCompare ''1.0.0-beta'' ''1.0.0-alpha'')"
    using compareVersions_sign_antisymmetric [OF h, of "''1.0.0-alpha''" "''1.0.0-beta''"]
    by (rule conjunct2)
  with lt have gt: "compareVersions plainCompare ''1.0.0-beta'' ''1.0.0-alpha'' > 0"
    by (simp add: sgn_if split: if_splits)
  from h lt gt show ?thesis by (intro conjI)
qed

section \<open>Properties of range parsing and resolution\<close>

lemma js_split_not_Nil: "js_split sep s \<noteq> []"
  by (induction s) (auto split: list.splits)

lemma js_split_no_sep: "sep \<notin> set s \<Longrightarrow> js_split sep s = [s]"
  by (induction s) auto

lemma js_split_first:
  "sep \<in> set s \<Longrightarrow>
     js_split sep s = takeWhile (\<lambda>c. c \<noteq> sep) s # js_split sep (tl (dropWhile (\<lambda>c. c \<noteq> sep) s))"
proof (induction s)
  case Nil
  then show ?case by simp
next
  case (Cons c s)
  show ?case
  proof (cases "c = sep")
    case True
    then show ?thesis by simp
  next
    case False
    with Cons.prems have "sep \<in> set s" by simp
    from Cons.IH [OF this] False show ?thesis by simp
  qed
qed

lemma js_split_hd: "hd (js_split sep s) = takeWhile (\<lambda>c. c \<noteq> sep) s"
proof (cases "sep \<in> set s")
  case True
  then show ?thesis by (simp add: js_split_first)
next
  case False
  then have tw: "takeWhile (\<lambda>c. c \<noteq> sep) s = s"
    by (induction s) auto
  show ?thesis
    unfolding js_split_no_sep [OF False] tw by simp
qed

lemma stripDelimiters_delimited:
  assumes "opening = CHR ''['' \<or> opening = CHR ''(''"
    and "closing = CHR '']'' \<or> closing = CHR '')''"
  shows "stripDelimiters (opening # body @ [closing]) = body"
  using assms by (auto simp: stripDelimiters_def)

lemma trimmedPart_0:
  "trimmedPart (js_split sep s) 0 =
     (if trim (takeWhile (\<lambda>c. c \<noteq> sep) s) = [] then None
      else Some (trim (takeWhile (\<lambda>c. c \<noteq> sep) s)))"
  using js_split_not_Nil [of sep s] js_split_hd [of sep s]
  by (cases "js_split sep s") (auto simp: trimmedPart_def)

lemma trimmedPart_1:
  "trimmedPart (js_split sep s) 1 =
     (if sep \<in> set s \<and> trim (takeWhile (\<lambda>c. c \<noteq> sep) (tl (dropWhile (\<lambda>c. c \<noteq> sep) s))) \<noteq> []
      then Some (trim (takeWhile (\<lambda>c. c \<noteq> sep) (tl (dropWhile (\<lambda>c. c \<noteq> sep) s))))
      else None)"
proof (cases "sep \<in> set s")
  case True
  let ?r = "tl (dropWhile (\<lambda>c. c \<noteq> sep) s)"
  from True have s: "js_split sep s = takeWhile (\<lambda>c. c \<noteq> sep) s # js_split sep ?r"
    by (rule js_split_first)
  obtain p ps where p: "js_split sep ?r = p # ps"
    using js_split_not_Nil [of sep ?r] by (cases "js_split sep ?r") auto
  with js_split_hd [of sep ?r] have "p = takeWhile (\<lambda>c. c \<noteq> sep) ?r" by simp
  with True s p show ?thesis by (simp add: trimmedPart_def)
next
  case False
  then show ?thesis by (simp add: js_split_no_sep trimmedPart_def)
qed

lemma trimmedPart_truthy: "trimmedPart parts i = Some x \<Longrightarrow> x \<noteq> []"
  by (auto simp: trimmedPart_def split: if_splits)

lemma parseVersionRange_delimited:
  assumes "opening = CHR ''['' \<or> opening = CHR ''(''"
    and "closing = CHR '']'' \<or> closing = CHR '')''"
  shows "parseVersionRange (opening # body @ [closing]) =
     \<lparr>minVersion =
        (if trim (takeWhile (\<lambda>c. c \<noteq> CHR '','') body) = [] then None
         else Some (trim (takeWhile (\<lambda>c. c \<noteq> CHR '','') body))),
      maxVersion =
        (if CHR '','' \<in> set body
            \<and> trim (takeWhile (\<lambda>c. c \<noteq> CHR '','') (tl (dropWhile (\<lambda>c. c \<noteq> CHR '','') body))) \<noteq> []
         then Some (trim (takeWhile (\<lambda>c. c \<noteq> CHR '','') (tl (dropWhile (\<lambda>c. c \<noteq> CHR '','') body))))
         else None),
      includeMin = (opening = CHR ''[''),
      includeMax = (closing = CHR '']'')\<rparr>"
  unfolding parseVersionRange_def Let_def stripDelimiters_delimited [OF assms]
    trimmedPart_0 trimmedPart_1
  by simp

lemma isVersionRange_iff:
  "isVersionRange v \<longleftrightarrow>
     (\<exists>opening body closing. v = opening # body @ [closing]
        \<and> (opening = CHR ''['' \<or> opening = CHR ''('')
        \<and> (closing = CHR '']'' \<or> closing = CHR '')'')
        \<and> body \<noteq> [] \<and> list_all (\<lambda>x. \<not> isLineTerminator x) body)"
proof
  assume "isVersionRange v"
  then obtain o' c' where oc: "matchesDelimited o' c' v"
      "o' = CHR ''['' \<or> o' = CHR ''(''" "c' = CHR '']'' \<or> c' = CHR '')''"
    by (auto simp: isVersionRange_def)
  then obtain cs where v: "v = o' # cs" "cs \<noteq> []" "last cs = c'" "butlast cs \<noteq> []"
      "list_all (\<lambda>x. \<not> isLineTerminator x) (butlast cs)"
    by (cases v) (auto simp: matchesDelimited_def)
  then have "v = o' # butlast cs @ [c']"
    using append_butlast_last_id [of cs] by simp
  with oc v show "\<exists>opening body closing. v = opening # body @ [closing]
        \<and> (opening = CHR ''['' \<or> opening = CHR ''('')
        \<and> (closing = CHR '']'' \<or> closing = CHR '')'')
        \<and> body \<noteq> [] \<and> list_all (\<lambda>x. \<not> isLineTerminator x) body"
    by blast
next
  assume "\<exists>opening body closing. v = opening # body @ [closing]
        \<and> (opening = CHR ''['' \<or> opening = CHR ''('')
        \<and> (closing = CHR '']'' \<or> closing = CHR '')'')
        \<and> body \<noteq> [] \<and> list_all (\<lambda>x. \<not> isLineTerminator x) body"
  then show "isVersionRange v"
    by (auto simp: isVersionRange_def matchesDelimited_def)
qed

text \<open>
  Claim C8, as amended. For every string that \<open>isVersionRange\<close> accepts, parsing drops the
  two delimiters; the lower text is what precedes the first comma and the upper text what
  lies between the first comma and the second (or the end), each trimmed of surrounding
  white space, and what follows a second comma is ignored; a text that is empty after
  trimming, or a missing upper text, is an unbounded side; the lower bound is inclusive iff
  the string opens with \<open>[\<close>, the upper iff it closes with \<open>]\<close>.
\<close>
theorem parseVersionRange_of_range:
  assumes "isVersionRange rangeSpec"
  shows "parseVersionRange rangeSpec =
     (let content = butlast (tl rangeSpec);
          lowerText = trim (takeWhile (\<lambda>c. c \<noteq> CHR '','') content);
          upperText = trim (takeWhile (\<lambda>c. c \<noteq> CHR '','')
                              (tl (dropWhile (\<lambda>c. c \<noteq> CHR '','') content)))
      in \<lparr>minVersion = (if lowerText = [] then None else Some lowerText),
          maxVersion = (if upperText = [] then None else Some upperText),
          includeMin = (hd rangeSpec = CHR ''[''),
          includeMax = (last rangeSpec = CHR '']'')\<rparr>)"
proof -
  from assms obtain c1 body c2 where r: "rangeSpec = c1 # body @ [c2]"
    and oc: "c1 = CHR ''['' \<or> c1 = CHR ''(''" "c2 = CHR '']'' \<or> c2 = CHR '')''"
    unfolding isVersionRange_iff by blast
  have nc: "CHR '','' \<notin> set body \<Longrightarrow>
      trim (takeWhile (\<lambda>c. c \<noteq> CHR '','') (tl (dropWhile (\<lambda>c. c \<noteq> CHR '','') body))) = []"
  proof -
    assume "CHR '','' \<notin> set body"
    then have d: "dropWhile (\<lambda>c. c \<noteq> CHR '','') body = []"
      by (induction body) auto
    show ?thesis unfolding d by (simp add: trim_def)
  qed
  show ?thesis
    unfolding r parseVersionRange_delimited [OF oc] Let_def
    using nc by auto
qed

theorem parseVersionRange_of_range_witness:
  "isVersionRange ''[ 1.5 , 2.0 )''
   \<and> parseVersionRange ''[ 1.5 , 2.0 )''
       = \<lparr>minVersion = Some ''1.5'', maxVersion = Some ''2.0'', includeMin = True, includeMax = False\<rparr>"
proof -
  have r: "isVersionRange ''[ 1.5 , 2.0 )''"
    by (simp add: isVersionRange_def matchesDelimited_def isLineTerminator_def)
  from parseVersionRange_of_range [OF r] r show ?thesis
    by (simp add: trim_def isWhiteSpace_def)
qed

theorem parseVersionRange_counterexample:
  "isVersionRange ''[1.0,2.0,3.0]''
   \<and> maxVersion (parseVersionRange ''[1.0,2.0,3.0]'') = Some ''2.0''
   \<and> maxVersion (parseVersionRange_spec ''[1.0,2.0,3.0]'') = Some ''2.0,3.0''
   \<and> isVersionRange ''[ 1.0,2.0]''
   \<and> minVersion (parseVersionRange ''[ 1.0,2.0]'') = Some ''1.0''
   \<and> minVersion (parseVersionRange_spec ''[ 1.0,2.0]'') = Some '' 1.0''"
  by (simp add: isVersionRange_def matchesDelimited_def isLineTerminator_def
        parseVersionRange_def parseVersionRange_spec_def stripDelimiters_def trimmedPart_def
        trim_def isWhiteSpace_def)

lemma filter_case_find:
  "(case filter P xs of [] \<Rightarrow> a | v # _ \<Rightarrow> b v) = (case find P xs of None \<Rightarrow> a | Some v \<Rightarrow> b v)"
  by (induction xs) auto

lemma not_specific_opening:
  "opening = CHR ''['' \<or> opening = CHR ''('' \<Longrightarrow> \<not> isSpecificVersion (opening # rest)"
  by (auto simp: isSpecificVersion_def isDigit_def)

lemma find_first_highest:
  "find P xs = Some v \<Longrightarrow> sorted_wrt R xs \<Longrightarrow> R v v \<Longrightarrow> list_all (\<lambda>w. P w \<longrightarrow> R v w) xs"
proof (induction xs)
  case Nil
  then show ?case by simp
next
  case (Cons x xs)
  show ?case
  proof (cases "P x")
    case True
    with Cons.prems show ?thesis by (auto simp: list_all_iff)
  next
    case False
    with Cons show ?thesis by simp
  qed
qed

text \<open>
  Claim C10, as amended. A specifier made of an opening bracket or parenthesis, a body that
  is not empty and holds no comma and no line terminator, and a closing bracket or
  parenthesis is no specific version and is a range; its upper bound is absent, its lower
  bound is the body trimmed of surrounding white space (absent when nothing is left), inclusive
  iff the opening character is \<open>[\<close>; \<open>resolveVersion\<close> returns the first listed version
  that satisfies this lower bound, and VersionNotFound for the specifier when there is none;
  on a listing sorted descending no listed version that satisfies the bound is higher than
  the one returned.
\<close>
theorem resolveVersion_bracketed_single:
  assumes "opening = CHR ''['' \<or> opening = CHR ''(''"
    and "closing = CHR '']'' \<or> closing = CHR '')''"
    and "body \<noteq> []"
    and "CHR '','' \<notin> set body"
    and "list_all (\<lambda>x. \<not> isLineTerminator x) body"
  shows "isVersionRange (opening # body @ [closing])
       \<and> \<not> isSpecificVersion (opening # body @ [closing])
       \<and> parseVersionRange (opening # body @ [closing]) =
           \<lparr>minVersion = (if trim body = [] then None else Some (trim body)),
            maxVersion = None,
            includeMin = (opening = CHR ''[''),
            includeMax = (closing = CHR '']'')\<rparr>
       \<and> resolveVersion lc versions versionExists groupId artifactId (opening # body @ [closing]) =
           (case find (\<lambda>v. trim body = []
                            \<or> (if opening = CHR ''['' then compareVersions lc v (trim body) \<ge> 0
                                else compareVersions lc v (trim body) > 0)) versions of
              None \<Rightarrow> Inl (VersionNotFoundError (groupId @ '':'' @ artifactId) (opening # body @ [closing]))
            | Some v \<Rightarrow> Inr v)
       \<and> (sorted_wrt (\<lambda>x y. compareVersions lc x y \<ge> 0) versions \<longrightarrow>
            (\<forall>v. resolveVersion lc versions versionExists groupId artifactId
                    (opening # body @ [closing]) = Inr v \<longrightarrow>
                 list_all (\<lambda>w. (trim body = []
                                  \<or> (if opening = CHR ''['' then compareVersions lc w (trim body) \<ge> 0
                                      else compareVersions lc w (trim body) > 0))
                               \<longrightarrow> compareVersions lc v w \<ge> 0) versions))"
proof -
  let ?spec = "opening # body @ [closing]"
  let ?sat = "\<lambda>v. trim body = []
                \<or> (if opening = CHR ''['' then compareVersions lc v (trim body) \<ge> 0
                    else compareVersions lc v (trim body) > 0)"
  have range: "isVersionRange ?spec"
    unfolding isVersionRange_iff using assms by blast
  have nspec: "\<not> isSpecificVersion ?spec"
    using assms(1) by (rule not_specific_opening)
  have tw: "takeWhile (\<lambda>c. c \<noteq> CHR '','') body = body"
    using assms(4) by (induction body) auto
  have parse: "parseVersionRange ?spec =
           \<lparr>minVersion = (if trim body = [] then None else Some (trim body)),
            maxVersion = None,
            includeMin = (opening = CHR ''[''),
            includeMax = (closing = CHR '']'')\<rparr>"
    unfolding parseVersionRange_delimited [OF assms(1,2)] tw using assms(4) by simp
  have m: "versionMatchesRange lc v (if trim body = [] then None else Some (trim body)) None
             (opening = CHR ''['') (closing = CHR '']'')
           = (trim body = []
                \<or> (if opening = CHR ''['' then compareVersions lc v (trim body) \<ge> 0
                    else compareVersions lc v (trim body) > 0))" for v
    by (auto simp: versionMatchesRange_def truthy_def Let_def)
  have "resolveVersion lc versions versionExists groupId artifactId ?spec
          = resolveVersionRange lc versions groupId artifactId ?spec"
    using range nspec assms(1) by (auto simp: resolveVersion_def Let_def)
  also have "\<dots> = (case find (\<lambda>v. trim body = []
                            \<or> (if opening = CHR ''['' then compareVersions lc v (trim body) \<ge> 0
                                else compareVersions lc v (trim body) > 0)) versions of
              None \<Rightarrow> Inl (VersionNotFoundError (groupId @ '':'' @ artifactId) ?spec)
            | Some v \<Rightarrow> Inr v)"
    unfolding resolveVersionRange_def Let_def parse filter_case_find
    by (simp add: m)
  finally have res: "resolveVersion lc versions versionExists groupId artifactId ?spec
      = (case find ?sat versions of
           None \<Rightarrow> Inl (VersionNotFoundError (groupId @ '':'' @ artifactId) ?spec)
         | Some v \<Rightarrow> Inr v)" .
  have high: "sorted_wrt (\<lambda>x y. compareVersions lc x y \<ge> 0) versions \<longrightarrow>
            (\<forall>v. resolveVersion lc versions versionExists groupId artifactId ?spec = Inr v \<longrightarrow>
                 list_all (\<lambda>w. ?sat w \<longrightarrow> compareVersions lc v w \<ge> 0) versions)"
  proof (intro impI allI)
    fix v
    assume sorted: "sorted_wrt (\<lambda>x y. compareVersions lc x y \<ge> 0) versions"
      and "resolveVersion lc versions versionExists groupId artifactId ?spec = Inr v"
    then have f: "find ?sat versions = Some v"
      unfolding res by (cases "find ?sat versions") auto
    have "compareVersions lc v v \<ge> 0"
      by (simp add: compareVersions_same)
    with f sorted show "list_all (\<lambda>w. ?sat w \<longrightarrow> compareVersions lc v w \<ge> 0) versions"
      by (rule find_first_highest)
  qed
  from range nspec parse res high show ?thesis by blast
qed

theorem resolveVersion_bracketed_single_witness:
  "isVersionRange ''[1.0]''
   \<and> sorted_wrt (\<lambda>x y. compareVersions plainCompare x y \<ge> 0) [''2.0'', ''1.0'']
   \<and> resolveVersion plainCompare [''2.0'', ''1.0''] (\<lambda>v. True) ''g'' ''a'' ''[1.0]'' = Inr ''2.0''"
proof -
  have s: "sorted_wrt (\<lambda>x y. compareVersions plainCompare x y \<ge> 0) [''2.0'', ''1.0'']"
    by code_simp
  have c: "compareVersions plainCompare ''2.0'' ''1.0'' = 1"
    by code_simp
  have t: "trim ''1.0'' = ''1.0''"
    by (simp add: trim_def isWhiteSpace_def)
  have l: "list_all (\<lambda>x. \<not> isLineTerminator x) ''1.0''"
    by (simp add: isLineTerminator_def)
  from resolveVersion_bracketed_single [of "CHR ''[''" "CHR '']''" "''1.0''" plainCompare
      "[''2.0'', ''1.0'']" "\<lambda>v. True" "''g''" "''a''"] l s
  show ?thesis by (simp add: t c)
qed

theorem resolveVersion_bracketed_single_counterexample:
  "isVersionRange ''[ 1.0 ]''
   \<and> minVersion (parseVersionRange ''[ 1.0 ]'') = Some ''1.0''
   \<and> compareVersions plainCompare ''0.5'' '' 1.0 '' \<ge> 0
   \<and> resolveVersion plainCompare [''0.5''] (\<lambda>v. True) ''g'' ''a'' ''[ 1.0 ]''
        = Inl (VersionNotFoundError ''g:a'' ''[ 1.0 ]'')
   \<and> \<not> isVersionRange ''[]''
   \<and> \<not> isVersionRange [CHR ''['', CHR ''1'', CHR 0x0A, CHR '']'']
   \<and> resolveVersion plainCompare [''1.0-2'', ''1.0.1''] (\<lambda>v. True) ''g'' ''a'' ''(0.5)''
        = Inr ''1.0-2''
   \<and> compareVersions plainCompare ''1.0.1'' ''0.5'' > 0
   \<and> compareVersions plainCompare ''1.0-2'' ''1.0.1'' < 0"
  by code_simp

lemma versionMatchesRange_parsed:
  "versionMatchesRange lc v (minVersion (parseVersionRange rangeSpec))
       (maxVersion (parseVersionRange rangeSpec)) (includeMin (parseVersionRange rangeSpec))
       (includeMax (parseVersionRange rangeSpec))
     = ((case minVersion (parseVersionRange rangeSpec) of
           None \<Rightarrow> True
         | Some lo \<Rightarrow> if includeMin (parseVersionRange rangeSpec)
                     then compareVersions lc v lo \<ge> 0 else compareVersions lc v lo > 0)
      \<and> (case maxVersion (parseVersionRange rangeSpec) of
           None \<Rightarrow> True
         | Some hi \<Rightarrow> if includeMax (parseVersionRange rangeSpec)
                     then compareVersions lc v hi \<le> 0 else compareVersions lc v hi < 0))"
proof -
  have "minVersion (parseVersionRange rangeSpec) = Some x \<Longrightarrow> x \<noteq> []" for x
    by (simp add: parseVersionRange_def Let_def trimmedPart_truthy)
  moreover have "maxVersion (parseVersionRange rangeSpec) = Some x \<Longrightarrow> x \<noteq> []" for x
    by (simp add: parseVersionRange_def Let_def trimmedPart_truthy)
  ultimately show ?thesis
    by (cases "minVersion (parseVersionRange rangeSpec)";
        cases "maxVersion (parseVersionRange rangeSpec)")
       (auto simp: versionMatchesRange_def truthy_def Let_def)
qed

lemma first_match_split:
  "filter P xs = v # vs \<Longrightarrow>
     \<exists>pre post. xs = pre @ v # post \<and> list_all (\<lambda>u. \<not> P u) pre \<and> P v"
  by (auto simp: filter_eq_Cons_iff list_all_iff)

text \<open>
  Claim C4. With the bounds that \<open>parseVersionRange\<close> reads from the range string,
  \<open>resolveVersionRange\<close> throws VersionNotFound for the package and that range string when
  no listed version lies within the bounds; otherwise it returns the first listed version
  within the bounds (lower bound: comparison \<open>\<ge> 0\<close> when inclusive, \<open>> 0\<close> otherwise; upper
  bound: \<open>\<le> 0\<close> when inclusive, \<open>< 0\<close> otherwise), and on a listing sorted descending no
  version within the bounds is higher. For the listing 2.1.0, 2.0.0, 1.9.0, 1.8.0, 1.5.0,
  1.4.0 and the range \<open>[1.5,2.0)\<close> the result is 1.9.0.
\<close>
theorem resolveVersionRange_first_match:
  fixes lc :: "string \<Rightarrow> string \<Rightarrow> int" and versions :: "string list"
    and groupId artifactId rangeSpec :: string
  defines "r \<equiv> parseVersionRange rangeSpec"
  defines "inRange \<equiv> \<lambda>v.
      (case minVersion r of
         None \<Rightarrow> True
       | Some lo \<Rightarrow> if includeMin r then compareVersions lc v lo \<ge> 0 else compareVersions lc v lo > 0)
    \<and> (case maxVersion r of
         None \<Rightarrow> True
       | Some hi \<Rightarrow> if includeMax r then compareVersions lc v hi \<le> 0 else compareVersions lc v hi < 0)"
  shows "(list_all (\<lambda>v. \<not> inRange v) versions \<longrightarrow>
            resolveVersionRange lc versions groupId artifactId rangeSpec
              = Inl (VersionNotFoundError (groupId @ '':'' @ artifactId) rangeSpec))
       \<and> (\<not> list_all (\<lambda>v. \<not> inRange v) versions \<longrightarrow>
            (\<exists>pre v post. versions = pre @ v # post \<and> list_all (\<lambda>u. \<not> inRange u) pre \<and> inRange v
               \<and> resolveVersionRange lc versions groupId artifactId rangeSpec = Inr v
               \<and> (sorted_wrt (\<lambda>x y. compareVersions lc x y \<ge> 0) versions \<longrightarrow>
                    list_all (\<lambda>w. inRange w \<longrightarrow> compareVersions lc v w \<ge> 0) versions)))
       \<and> resolveVersionRange lc [''2.1.0'', ''2.0.0'', ''1.9.0'', ''1.8.0'', ''1.5.0'', ''1.4.0'']
            groupId artifactId ''[1.5,2.0)'' = Inr ''1.9.0''"
proof -
  let ?m = "filter inRange versions"
  have res: "resolveVersionRange lc versions groupId artifactId rangeSpec =
      (case ?m of [] \<Rightarrow> Inl (VersionNotFoundError (groupId @ '':'' @ artifactId) rangeSpec)
               | v # _ \<Rightarrow> Inr v)"
    unfolding resolveVersionRange_def Let_def versionMatchesRange_parsed inRange_def r_def ..
  have none: "list_all (\<lambda>v. \<not> inRange v) versions \<longrightarrow>
            resolveVersionRange lc versions groupId artifactId rangeSpec
              = Inl (VersionNotFoundError (groupId @ '':'' @ artifactId) rangeSpec)"
  proof
    assume "list_all (\<lambda>v. \<not> inRange v) versions"
    then have "?m = []" by (simp add: list_all_iff)
    then show "resolveVersionRange lc versions groupId artifactId rangeSpec
              = Inl (VersionNotFoundError (groupId @ '':'' @ artifactId) rangeSpec)"
      unfolding res by simp
  qed
  have some: "\<not> list_all (\<lambda>v. \<not> inRange v) versions \<longrightarrow>
            (\<exists>pre v post. versions = pre @ v # post \<and> list_all (\<lambda>u. \<not> inRange u) pre \<and> inRange v
               \<and> resolveVersionRange lc versions groupId artifactId rangeSpec = Inr v
               \<and> (sorted_wrt (\<lambda>x y. compareVersions lc x y \<ge> 0) versions \<longrightarrow>
                    list_all (\<lambda>w. inRange w \<longrightarrow> compareVersions lc v w \<ge> 0) versions))"
  proof
    assume "\<not> list_all (\<lambda>v. \<not> inRange v) versions"
    then obtain v vs where m: "?m = v # vs"
      by (cases ?m) (auto simp: list_all_iff filter_empty_conv)
    from first_match_split [OF m] obtain pre post
      where sp: "versions = pre @ v # post" "list_all (\<lambda>u. \<not> inRange u) pre" "inRange v"
      by blast
    have r: "resolveVersionRange lc versions groupId artifactId rangeSpec = Inr v"
      unfolding res m by simp
    have hi: "sorted_wrt (\<lambda>x y. compareVersions lc x y \<ge> 0) versions \<longrightarrow>
                    list_all (\<lambda>w. inRange w \<longrightarrow> compareVersions lc v w \<ge> 0) versions"
    proof
      assume "sorted_wrt (\<lambda>x y. compareVersions lc x y \<ge> 0) versions"
      then have "\<forall>w \<in> set post. compareVersions lc v w \<ge> 0"
        unfolding sp(1) by (simp add: sorted_wrt_append)
      moreover have "compareVersions lc v v \<ge> 0"
        by (simp add: compareVersions_same)
      moreover have "\<forall>w \<in> set pre. \<not> inRange w"
        using sp(2) by (simp add: list_all_iff)
      ultimately show "list_all (\<lambda>w. inRange w \<longrightarrow> compareVersions lc v w \<ge> 0) versions"
        unfolding sp(1) by (auto simp: list_all_iff)
    qed
    from sp r hi show "\<exists>pre v post. versions = pre @ v # post \<and> list_all (\<lambda>u. \<not> inRange u) pre
               \<and> inRange v
               \<and> resolveVersionRange lc versions groupId artifactId rangeSpec = Inr v
               \<and> (sorted_wrt (\<lambda>x y. compareVersions lc x y \<ge> 0) versions \<longrightarrow>
                    list_all (\<lambda>w. inRange w \<longrightarrow> compareVersions lc v w \<ge> 0) versions)"
      by blast
  qed
  have ex: "resolveVersionRange lc [''2.1.0'', ''2.0.0'', ''1.9.0'', ''1.8.0'', ''1.5.0'', ''1.4.0'']
            groupId artifactId ''[1.5,2.0)'' = Inr ''1.9.0''"
    by code_simp
  from none some ex show ?thesis by blast
qed


theorem resolveVersionRange_first_match_witness:
  "sorted_wrt (\<lambda>x y. compareVersions plainCompare x y \<ge> 0)
     [''2.1.0'', ''2.0.0'', ''1.9.0'', ''1.8.0'', ''1.5.0'', ''1.4.0'']
   \<and> resolveVersionRange plainCompare [''2.1.0'', ''2.0.0'', ''1.9.0'', ''1.8.0'', ''1.5.0'', ''1.4.0'']
        ''org.example'' ''lib'' ''[1.5,2.0)'' = Inr ''1.9.0''
   \<and> resolveVersionRange plainCompare [''1.9.0'', ''1.8.0'', ''1.5.0'']
        ''org.example'' ''lib'' ''[3.0,4.0)''
        = Inl (VersionNotFoundError ''org.example:lib'' ''[3.0,4.0)'')"
proof -
  have s: "sorted_wrt (\<lambda>x y. compareVersions plainCompare x y \<ge> 0)
     [''2.1.0'', ''2.0.0'', ''1.9.0'', ''1.8.0'', ''1.5.0'', ''1.4.0'']"
    by code_simp
  have p: "parseVersionRange ''[3.0,4.0)''
      = \<lparr>minVersion = Some ''3.0'', maxVersion = Some ''4.0'', includeMin = True, includeMax = False\<rparr>"
    by code_simp
  have c: "compareVersions plainCompare ''1.9.0'' ''3.0'' < 0"
      "compareVersions plainCompare ''1.8.0'' ''3.0'' < 0"
      "compareVersions plainCompare ''1.5.0'' ''3.0'' < 0"
    by code_simp+
  have a: "resolveVersionRange plainCompare
        [''2.1.0'', ''2.0.0'', ''1.9.0'', ''1.8.0'', ''1.5.0'', ''1.4.0'']
        ''org.example'' ''lib'' ''[1.5,2.0)'' = Inr ''1.9.0''"
    using resolveVersionRange_first_match [where lc = plainCompare and groupId = "''org.example''"
        and artifactId = "''lib''"]
    by blast
  have b: "resolveVersionRange plainCompare [''1.9.0'', ''1.8.0'', ''1.5.0'']
        ''org.example'' ''lib'' ''[3.0,4.0)''
        = Inl (VersionNotFoundError ''org.example:lib'' ''[3.0,4.0)'')"
    using resolveVersionRange_first_match [where lc = plainCompare
        and versions = "[''1.9.0'', ''1.8.0'', ''1.5.0'']" and groupId = "''org.example''"
        and artifactId = "''lib''" and rangeSpec = "''[3.0,4.0)''"] c
    by (simp add: p)
  from s a b show ?thesis by blast
qed

end
